theory Spec2Isabelle
  imports Main "HOL-Library.Sublist"
begin

section \<open>The serial capture script\<close>

text \<open>
  The repository holds one Python 2 script in two copies, \<^verbatim>\<open>src/tools/sercap.py\<close> and
  \<^verbatim>\<open>src/tests/sercap.py\<close>. It opens a serial port, sends a wake byte, copies what it
  reads to standard output until a chunk holds the sentinel or the wall clock has moved
  more than seven seconds, closes the port and exits.

  The script talks to three things outside itself: the serial port (the \<^verbatim>\<open>serial\<close>
  library), the wall clock and standard output. The model makes them explicit. What the
  outside world answers is the input (\<open>env\<close>); what the script does to it is recorded
  call by call (\<open>events\<close>). A read may return any byte string, the empty one included.
\<close>

subsection \<open>Constants and the substring test\<close>

text \<open>\<^verbatim>\<open>sentinel = "\x03"\<close> and \<^verbatim>\<open>timeout_s = 7\<close>. A Python 2 \<^verbatim>\<open>str\<close> is a byte string.\<close>

definition sentinel :: string where
  "sentinel = [CHR 0x03]"

definition timeout_s :: int where
  "timeout_s = 7"

text \<open>\<^verbatim>\<open>x in y\<close> on two \<^verbatim>\<open>str\<close> values: \<open>x\<close> occurs in \<open>y\<close> as a contiguous run.\<close>

fun str_in :: "string \<Rightarrow> string \<Rightarrow> bool" where
  "str_in x [] = (x = [])"
| "str_in x (c # cs) = (prefix x (c # cs) \<or> str_in x cs)"

text \<open>
  Instants are \<^verbatim>\<open>datetime\<close> values and their differences \<^verbatim>\<open>timedelta\<close> values, both
  with a resolution of one microsecond: they are integers counting microseconds.
  \<^verbatim>\<open>elapsed.total_seconds() > timeout_s\<close> divides the microsecond count by \<open>10\<^sup>6\<close>,
  correctly rounded, and compares with the integer; rounding is monotone and
  \<open>7000001 / 10\<^sup>6\<close> rounds above \<open>7\<close>, so the test is the integer comparison below.
\<close>

definition total_seconds_gt :: "int \<Rightarrow> int \<Rightarrow> bool" where
  "total_seconds_gt elapsed secs = (elapsed > secs * 1000000)"

subsection \<open>The outside world\<close>

text \<open>
  One pass through the loop body asks the world three things: what \<^verbatim>\<open>s.read()\<close> returns
  (\<open>None\<close> when it raises), whether \<^verbatim>\<open>sys.stdout.write(d)\<close> completes (asked only when
  the chunk is not empty), and what \<^verbatim>\<open>datetime.datetime.now()\<close> shows.
\<close>

record iteration =
  rd :: "string option"
  wr_ok :: bool
  now_ts :: int

text \<open>
  A run is scripted by the answers to the calls before the loop, the instant stored in
  \<^verbatim>\<open>start_reading_ts\<close>, the answers for as many passes as the script covers, and the
  answer of \<^verbatim>\<open>s.close()\<close>. \<^verbatim>\<open>time.sleep\<close> and the clock do not raise.
\<close>

record env =
  open_ok :: bool
  flush_ok :: bool
  wake_ok :: bool
  start_ts :: int
  iters :: "iteration list"
  close_ok :: bool

text \<open>
  The calls the script makes, in order, each with the world's answer. \<open>Open\<close> carries
  the device path, the baud rate and the read timeout in microseconds; \<open>Sleep\<close> the
  pause in microseconds; \<open>PortWrite\<close> and \<open>StdoutWrite\<close> the bytes handed over.
\<close>

datatype event =
    Open string int int bool
  | FlushInput bool
  | Sleep int
  | PortWrite string bool
  | Now int
  | Read "string option"
  | StdoutWrite string bool
  | Close bool

text \<open>
  The script's variables (\<open>d\<close> is unbound until the first read returns; \<open>s\<close> is true
  once it holds the port object, which Python takes as true in \<^verbatim>\<open>if s\<close>), the bytes
  that reached standard output, and the calls made so far.
\<close>

record state =
  reading :: bool
  timeout :: bool
  s :: bool
  d :: "string option"
  stdout :: string
  events :: "event list"

definition emit :: "event \<Rightarrow> state \<Rightarrow> state" where
  "emit ev st = st\<lparr>events := events st @ [ev]\<rparr>"

text \<open>
  How a block ends: it ran to its end, an exception is on its way up, or the scripted
  answers ran out while the loop was still reading. In the last case the run is not over:
  the loop would go on with the next read, and nothing after the loop has happened.
\<close>

datatype flow = Finished | Raised | Starved

text \<open>
  How the process ends: \<^verbatim>\<open>sys.exit\<close> with a status, an uncaught exception (the
  interpreter prints a traceback), or not yet.
\<close>

datatype outcome = Exit int | Uncaught | Unfinished

subsection \<open>\<^verbatim>\<open>src/tools/sercap.py\<close>\<close>

text \<open>Lines 41 to 52: one pass through the loop body. \<open>Inl\<close> is a raise.\<close>

definition body :: "int \<Rightarrow> iteration \<Rightarrow> state \<Rightarrow> state + state" where
  "body start_reading_ts it st =
     (case rd it of
        None \<Rightarrow> Inl (emit (Read None) st)
      | Some c \<Rightarrow>
          let st1 = emit (Read (Some c)) (st\<lparr>d := Some c\<rparr>) in
          if length c \<noteq> 0 \<and> \<not> wr_ok it then Inl (emit (StdoutWrite c False) st1)
          else
            let st2 = (if length c \<noteq> 0
                       then emit (StdoutWrite c True) (st1\<lparr>stdout := stdout st1 @ c\<rparr>)
                       else st1);
                st3 = (if str_in sentinel c then st2\<lparr>reading := False\<rparr> else st2);
                st4 = emit (Now (now_ts it)) st3;
                elapsed = now_ts it - start_reading_ts
            in Inr (if total_seconds_gt elapsed timeout_s
                    then st4\<lparr>reading := False, timeout := True\<rparr>
                    else st4))"

text \<open>Line 40: \<^verbatim>\<open>while reading\<close>.\<close>

fun while_reading :: "int \<Rightarrow> iteration list \<Rightarrow> state \<Rightarrow> flow \<times> state" where
  "while_reading start_reading_ts [] st =
     (if reading st then (Starved, st) else (Finished, st))"
| "while_reading start_reading_ts (it # rest) st =
     (if reading st
      then (case body start_reading_ts it st of
              Inl st' \<Rightarrow> (Raised, st')
            | Inr st' \<Rightarrow> while_reading start_reading_ts rest st')
      else (Finished, st))"

text \<open>Lines 34 to 52: the \<^verbatim>\<open>try\<close> block.\<close>

definition try_block :: "env \<Rightarrow> state \<Rightarrow> flow \<times> state" where
  "try_block e st =
     (let st1 = emit (Open ''/dev/tty.usbmodem1421'' 115200 100000 (open_ok e)) st in
      if \<not> open_ok e then (Raised, st1)
      else
        let st2 = emit (FlushInput (flush_ok e)) (st1\<lparr>s := True\<rparr>) in
        if \<not> flush_ok e then (Raised, st2)
        else
          let st3 = emit (Sleep 500000) st2;
              st4 = emit (PortWrite '' '' (wake_ok e)) st3 in
          if \<not> wake_ok e then (Raised, st4)
          else while_reading (start_ts e) (iters e) (emit (Now (start_ts e)) st4))"

text \<open>Lines 53 to 55: the \<^verbatim>\<open>finally\<close> block. A raise in it replaces what was on its way.\<close>

definition finally_block :: "env \<Rightarrow> flow \<times> state \<Rightarrow> flow \<times> state" where
  "finally_block e r =
     (case r of (fl, st) \<Rightarrow>
        if s st
        then (if close_ok e then (fl, emit (Close True) st)
              else (Raised, emit (Close False) st))
        else (fl, st))"

text \<open>Lines 30 to 60: the whole script.\<close>

definition run :: "env \<Rightarrow> outcome \<times> state" where
  "run e =
     (let st0 = \<lparr>reading = True, timeout = False, s = False, d = None,
                 stdout = [], events = []\<rparr>
      in case try_block e st0 of
           (fl, st) \<Rightarrow>
             if fl = Starved then (Unfinished, st)
             else (case finally_block e (fl, st) of
                     (fl', st') \<Rightarrow>
                       if fl' = Raised then (Uncaught, st')
                       else if timeout st' then (Exit 1, st')
                       else (Exit 0, st')))"

subsection \<open>\<^verbatim>\<open>src/tests/sercap.py\<close>\<close>

text \<open>
  The second copy, embedded from its own lines: the loop body (22 to 33), the loop (21),
  the \<^verbatim>\<open>try\<close> block (15 to 33), the \<^verbatim>\<open>finally\<close> block (34 to 36) and the whole script
  (11 to 41).
\<close>

definition tests_body :: "int \<Rightarrow> iteration \<Rightarrow> state \<Rightarrow> state + state" where
  "tests_body start_reading_ts it st =
     (case rd it of
        None \<Rightarrow> Inl (emit (Read None) st)
      | Some c \<Rightarrow>
          let st1 = emit (Read (Some c)) (st\<lparr>d := Some c\<rparr>) in
          if length c \<noteq> 0 \<and> \<not> wr_ok it then Inl (emit (StdoutWrite c False) st1)
          else
            let st2 = (if length c \<noteq> 0
                       then emit (StdoutWrite c True) (st1\<lparr>stdout := stdout st1 @ c\<rparr>)
                       else st1);
                st3 = (if str_in sentinel c then st2\<lparr>reading := False\<rparr> else st2);
                st4 = emit (Now (now_ts it)) st3;
                elapsed = now_ts it - start_reading_ts
            in Inr (if total_seconds_gt elapsed timeout_s
                    then st4\<lparr>reading := False, timeout := True\<rparr>
                    else st4))"

fun tests_while_reading :: "int \<Rightarrow> iteration list \<Rightarrow> state \<Rightarrow> flow \<times> state" where
  "tests_while_reading start_reading_ts [] st =
     (if reading st then (Starved, st) else (Finished, st))"
| "tests_while_reading start_reading_ts (it # rest) st =
     (if reading st
      then (case tests_body start_reading_ts it st of
              Inl st' \<Rightarrow> (Raised, st')
            | Inr st' \<Rightarrow> tests_while_reading start_reading_ts rest st')
      else (Finished, st))"

definition tests_try_block :: "env \<Rightarrow> state \<Rightarrow> flow \<times> state" where
  "tests_try_block e st =
     (let st1 = emit (Open ''/dev/tty.usbmodem1421'' 115200 100000 (open_ok e)) st in
      if \<not> open_ok e then (Raised, st1)
      else
        let st2 = emit (FlushInput (flush_ok e)) (st1\<lparr>s := True\<rparr>) in
        if \<not> flush_ok e then (Raised, st2)
        else
          let st3 = emit (Sleep 500000) st2;
              st4 = emit (PortWrite '' '' (wake_ok e)) st3 in
          if \<not> wake_ok e then (Raised, st4)
          else tests_while_reading (start_ts e) (iters e) (emit (Now (start_ts e)) st4))"

definition tests_finally_block :: "env \<Rightarrow> flow \<times> state \<Rightarrow> flow \<times> state" where
  "tests_finally_block e r =
     (case r of (fl, st) \<Rightarrow>
        if s st
        then (if close_ok e then (fl, emit (Close True) st)
              else (Raised, emit (Close False) st))
        else (fl, st))"

definition tests_run :: "env \<Rightarrow> outcome \<times> state" where
  "tests_run e =
     (let st0 = \<lparr>reading = True, timeout = False, s = False, d = None,
                 stdout = [], events = []\<rparr>
      in case tests_try_block e st0 of
           (fl, st) \<Rightarrow>
             if fl = Starved then (Unfinished, st)
             else (case tests_finally_block e (fl, st) of
                     (fl', st') \<Rightarrow>
                       if fl' = Raised then (Uncaught, st')
                       else if timeout st' then (Exit 1, st')
                       else (Exit 0, st')))"

subsection \<open>Vocabulary for the statements\<close>

text \<open>The bytes a pass receives: what its read returns, nothing when the read raises.\<close>

definition chunk :: "iteration \<Rightarrow> string" where
  "chunk it = (case rd it of None \<Rightarrow> [] | Some c \<Rightarrow> c)"

text \<open>
  A pass after which the loop goes on: the read returns a chunk without the sentinel,
  forwarding it (when there is something to forward) completes, and the clock has not
  moved more than seven seconds past the start instant.
\<close>

definition quiet :: "int \<Rightarrow> iteration \<Rightarrow> bool" where
  "quiet start it =
     (rd it \<noteq> None \<and> \<not> str_in sentinel (chunk it) \<and> (chunk it = [] \<or> wr_ok it)
      \<and> \<not> total_seconds_gt (now_ts it - start) timeout_s)"

text \<open>What such a pass does to the state.\<close>

definition pass_events :: "iteration \<Rightarrow> event list" where
  "pass_events it =
     Read (Some (chunk it))
       # (if chunk it = [] then [] else [StdoutWrite (chunk it) True]) @ [Now (now_ts it)]"

definition pass :: "state \<Rightarrow> iteration \<Rightarrow> state" where
  "pass st it = st\<lparr>d := Some (chunk it), stdout := stdout st @ chunk it,
                     events := events st @ pass_events it\<rparr>"

text \<open>No call of the run raises.\<close>

definition no_failure :: "env \<Rightarrow> bool" where
  "no_failure e =
     (open_ok e \<and> flush_ok e \<and> wake_ok e \<and> close_ok e
      \<and> (\<forall>it \<in> set (iters e). rd it \<noteq> None \<and> wr_ok it))"

text \<open>The calls before the loop, when none of them raises.\<close>

definition prelude :: "env \<Rightarrow> event list" where
  "prelude e =
     [Open ''/dev/tty.usbmodem1421'' 115200 100000 True, FlushInput True, Sleep 500000,
      PortWrite '' '' True, Now (start_ts e)]"

text \<open>The state in which the loop is entered when the calls before it went through.\<close>

definition loop_entry :: "env \<Rightarrow> state" where
  "loop_entry e = \<lparr>reading = True, timeout = False, s = True, d = None, stdout = [],
                   events = prelude e\<rparr>"

text \<open>The chunks the reads of a run returned, in order; reads and closes among the calls.\<close>

fun chunks_read :: "event list \<Rightarrow> string list" where
  "chunks_read [] = []"
| "chunks_read (Read (Some c) # evs) = c # chunks_read evs"
| "chunks_read (ev # evs) = chunks_read evs"

fun is_read :: "event \<Rightarrow> bool" where
  "is_read (Read r) = True"
| "is_read ev = False"

fun is_close :: "event \<Rightarrow> bool" where
  "is_close (Close b) = True"
| "is_close ev = False"

text \<open>
  The loop has ended through line 46: \<open>reading\<close> is false and the chunk read last, still
  bound to \<open>d\<close>, passes the test of line 45.
\<close>

definition stopped_by_sentinel :: "state \<Rightarrow> bool" where
  "stopped_by_sentinel st =
     (\<not> reading st \<and> (case d st of None \<Rightarrow> False | Some c \<Rightarrow> str_in sentinel c))"

subsection \<open>Invariants of the loop\<close>

text \<open>
  Standard output holds the chunks read so far; while the loop is reading none of them
  held the sentinel; a chunk that holds it is the end of what was forwarded.
\<close>

definition forwarded :: "state \<Rightarrow> bool" where
  "forwarded st =
     (stdout st = concat (chunks_read (events st))
      \<and> (reading st \<longrightarrow> (\<forall>c \<in> set (chunks_read (events st)). \<not> str_in sentinel c))
      \<and> (\<forall>c \<in> set (chunks_read (events st)). str_in sentinel c \<longrightarrow> suffix c (stdout st)))"

text \<open>While the loop is reading no chunk held the sentinel, and once it has stopped the
  test of line 45 on the last chunk tells whether any chunk did.\<close>

definition detected :: "state \<Rightarrow> bool" where
  "detected st =
     ((reading st \<longrightarrow> (\<forall>c \<in> set (chunks_read (events st)). \<not> str_in sentinel c))
      \<and> (stopped_by_sentinel st \<longleftrightarrow> (\<exists>c \<in> set (chunks_read (events st)). str_in sentinel c)))"

text \<open>
  No read so far returned the sentinel (\<open>nsr\<close>); or exactly one did, and after it came
  only the forwarding of that chunk and, when the forwarding went through, one look at
  the clock (\<open>sealed\<close>).
\<close>

definition nsr :: "event list \<Rightarrow> bool" where
  "nsr evs = (\<forall>c. Read (Some c) \<in> set evs \<longrightarrow> \<not> str_in sentinel c)"

definition sealed :: "event list \<Rightarrow> bool" where
  "sealed evs =
     (nsr evs
      \<or> (\<exists>q c tl. evs = q @ Read (Some c) # tl \<and> nsr q \<and> str_in sentinel c
            \<and> (tl = [StdoutWrite c False] \<or> (\<exists>t. tl = [StdoutWrite c True, Now t]))))"

definition sealing :: "state \<Rightarrow> bool" where
  "sealing st = ((reading st \<longrightarrow> nsr (events st)) \<and> sealed (events st))"

text \<open>The flag \<open>timeout\<close> is set only when some pass saw the clock past the limit.\<close>

definition late_seen :: "env \<Rightarrow> state \<Rightarrow> bool" where
  "late_seen e st =
     (timeout st \<longrightarrow> (\<exists>it \<in> set (iters e). now_ts it - start_ts e > 7 * 1000000))"

text \<open>Two states that agree on the variables and on standard output.\<close>

definition same_vars :: "state \<Rightarrow> state \<Rightarrow> bool" where
  "same_vars a b =
     (reading a = reading b \<and> timeout a = timeout b \<and> s a = s b \<and> d a = d b
      \<and> stdout a = stdout b)"

section \<open>The loop, pass by pass\<close>

lemma str_in_sentinel: "str_in sentinel c \<longleftrightarrow> CHR 0x03 \<in> set c"
  by (induction c) (auto simp: sentinel_def)

lemma str_in_Nil [simp]: "\<not> str_in sentinel []"
  by (simp add: sentinel_def)

lemma body_quiet: "quiet start it \<Longrightarrow> body start it st = Inr (pass st it)"
  by (auto simp: quiet_def body_def pass_def pass_events_def chunk_def emit_def Let_def split: option.splits)

lemma while_reading_stopped: "\<not> reading st \<Longrightarrow> while_reading start its st = (Finished, st)"
  by (cases its) auto

lemma reading_pass [simp]: "reading (pass st it) = reading st"
  and timeout_pass [simp]: "timeout (pass st it) = timeout st"
  and s_pass [simp]: "s (pass st it) = s st"
  by (simp_all add: pass_def)

lemma reading_foldl_pass [simp]: "reading (foldl pass st pre) = reading st"
  by (induction pre arbitrary: st) auto

lemma timeout_foldl_pass [simp]: "timeout (foldl pass st pre) = timeout st"
  by (induction pre arbitrary: st) auto

lemma s_foldl_pass [simp]: "s (foldl pass st pre) = s st"
  by (induction pre arbitrary: st) auto

lemma stdout_foldl_pass [simp]: "stdout (foldl pass st pre) = stdout st @ concat (map chunk pre)"
  by (induction pre arbitrary: st) (auto simp: pass_def)

lemma events_foldl_pass [simp]: "events (foldl pass st pre) = events st @ concat (map pass_events pre)"
  by (induction pre arbitrary: st) (auto simp: pass_def)

lemma while_reading_quiet:
  "\<forall>p \<in> set pre. quiet start p \<Longrightarrow> reading st \<Longrightarrow>
   while_reading start (pre @ rest) st = while_reading start rest (foldl pass st pre)"
  by (induction pre arbitrary: st) (auto simp: body_quiet)

lemma try_block_ok:
  "open_ok e \<Longrightarrow> flush_ok e \<Longrightarrow> wake_ok e \<Longrightarrow>
   try_block e \<lparr>reading = True, timeout = False, s = False, d = None, stdout = [], events = []\<rparr>
     = while_reading (start_ts e) (iters e) (loop_entry e)"
  by (simp add: try_block_def loop_entry_def prelude_def emit_def)

lemma body_stop:
  "rd it = Some c \<Longrightarrow> c = [] \<or> wr_ok it \<Longrightarrow>
   str_in sentinel c \<or> total_seconds_gt (now_ts it - start) timeout_s \<Longrightarrow>
   body start it st = Inr ((pass st it)\<lparr>reading := False,
       timeout := (total_seconds_gt (now_ts it - start) timeout_s \<or> timeout st)\<rparr>)"
  by (auto simp: body_def pass_def pass_events_def chunk_def emit_def Let_def)

lemma while_reading_stop:
  assumes "\<forall>p \<in> set pre. quiet start p" "reading st"
    and "rd it = Some c" "c = [] \<or> wr_ok it"
    and "str_in sentinel c \<or> total_seconds_gt (now_ts it - start) timeout_s"
  shows "while_reading start (pre @ it # post) st =
     (Finished, (pass (foldl pass st pre) it)\<lparr>reading := False,
       timeout := (total_seconds_gt (now_ts it - start) timeout_s \<or> timeout st)\<rparr>)"
  using assms by (simp add: while_reading_quiet body_stop while_reading_stopped)

text \<open>
  The whole run when every call goes through, the passes \<open>pre\<close> are quiet and the next
  pass stops the loop, by the sentinel, by the clock or by both.
\<close>

lemma run_stop:
  assumes "open_ok e" "flush_ok e" "wake_ok e" "close_ok e"
    and "iters e = pre @ it # post"
    and "\<forall>p \<in> set pre. quiet (start_ts e) p"
    and "rd it = Some c" "c = [] \<or> wr_ok it"
    and "str_in sentinel c \<or> total_seconds_gt (now_ts it - start_ts e) timeout_s"
  shows "run e =
     (Exit (if total_seconds_gt (now_ts it - start_ts e) timeout_s then 1 else 0),
      \<lparr>reading = False, timeout = total_seconds_gt (now_ts it - start_ts e) timeout_s,
       s = True, d = Some c, stdout = concat (map chunk pre) @ c,
       events = prelude e @ concat (map pass_events pre) @ pass_events it @ [Close True]\<rparr>)"
proof -
  have "try_block e \<lparr>reading = True, timeout = False, s = False, d = None, stdout = [], events = []\<rparr>
    = (Finished, (pass (foldl pass (loop_entry e) pre) it)\<lparr>reading := False,
       timeout := (total_seconds_gt (now_ts it - start_ts e) timeout_s \<or> timeout (loop_entry e))\<rparr>)"
    using assms by (simp add: try_block_ok while_reading_stop loop_entry_def)
  then show ?thesis
    using assms(4,7)
    by (simp add: run_def finally_block_def emit_def pass_def loop_entry_def chunk_def)
qed

lemma run_all_quiet:
  assumes "open_ok e" "flush_ok e" "wake_ok e"
    and "\<forall>p \<in> set (iters e). quiet (start_ts e) p"
  shows "fst (run e) = Unfinished"
proof -
  have "while_reading (start_ts e) (iters e @ []) (loop_entry e)
      = while_reading (start_ts e) [] (foldl pass (loop_entry e) (iters e))"
    using assms(4) by (rule while_reading_quiet) (simp add: loop_entry_def)
  then show ?thesis
    using assms(1-3) by (simp add: run_def try_block_ok loop_entry_def)
qed

lemma run_in_time:
  assumes "no_failure e"
    and "\<forall>it \<in> set (iters e). \<not> total_seconds_gt (now_ts it - start_ts e) timeout_s"
  shows "fst (run e) = (if CHR 0x03 \<in> set (concat (map chunk (iters e))) then Exit 0 else Unfinished)"
proof (cases "\<exists>it \<in> set (iters e). str_in sentinel (chunk it)")
  case True
  from split_list_first_prop[OF this]
  obtain pre it post where sp: "iters e = pre @ it # post"
    "str_in sentinel (chunk it)" "\<forall>p \<in> set pre. \<not> str_in sentinel (chunk p)"
    by blast
  from assms sp(1) have q: "\<forall>p \<in> set pre. quiet (start_ts e) p"
    using sp(3) by (auto simp: quiet_def no_failure_def)
  from assms(1) sp(1) obtain c where c: "rd it = Some c" "wr_ok it" by (auto simp: no_failure_def)
  with sp(2) have sc: "str_in sentinel c" by (simp add: chunk_def)
  have "fst (run e) = Exit 0"
    using run_stop[of e pre it post c] assms sp(1) q c sc by (simp add: no_failure_def)
  moreover have "CHR 0x03 \<in> set (concat (map chunk (iters e)))"
    using sp(1) sc c by (simp add: str_in_sentinel chunk_def)
  ultimately show ?thesis by simp
next
  case False
  with assms have "\<forall>p \<in> set (iters e). quiet (start_ts e) p"
    by (auto simp: quiet_def no_failure_def)
  with assms(1) have "fst (run e) = Unfinished"
    by (simp add: run_all_quiet no_failure_def)
  moreover from False have "CHR 0x03 \<notin> set (concat (map chunk (iters e)))"
    by (auto simp: str_in_sentinel)
  ultimately show ?thesis by simp
qed

lemma no_sentinel_concat:
  "\<forall>p \<in> set pre. quiet start p \<Longrightarrow> CHR 0x03 \<notin> set (concat (map chunk pre))"
  by (auto simp: quiet_def str_in_sentinel)

lemma upto_sentinel:
  assumes "\<forall>b \<in> set xs. b \<noteq> x" "x \<in> set c"
  shows "xs @ c = takeWhile (\<lambda>b. b \<noteq> x) (xs @ c @ ys) @ x # tl (dropWhile (\<lambda>b. b \<noteq> x) c)"
proof -
  have 1: "takeWhile (\<lambda>b. b \<noteq> x) (xs @ c @ ys) = xs @ takeWhile (\<lambda>b. b \<noteq> x) c"
    using assms by (simp add: takeWhile_append2 takeWhile_append1)
  have "dropWhile (\<lambda>b. b \<noteq> x) c \<noteq> []" using assms(2) by (simp add: dropWhile_eq_Nil_conv) 
  then have "dropWhile (\<lambda>b. b \<noteq> x) c = x # tl (dropWhile (\<lambda>b. b \<noteq> x) c)"
    using hd_dropWhile[of "\<lambda>b. b \<noteq> x" c] by (cases "dropWhile (\<lambda>b. b \<noteq> x) c") auto
  then have "c = takeWhile (\<lambda>b. b \<noteq> x) c @ x # tl (dropWhile (\<lambda>b. b \<noteq> x) c)"
    using takeWhile_dropWhile_id[of "\<lambda>b. b \<noteq> x" c] by simp
  with 1 show ?thesis by simp
qed

subsection \<open>A rule for invariants\<close>

text \<open>
  \<open>P\<close> holds before every pass and after every pass that returns; \<open>Q\<close> holds after a
  pass that raises.
\<close>

lemma while_reading_rule:
  assumes "while_reading start its st = (fl, st')" "P st" "set its \<subseteq> A"
    and "\<And>it st st'. it \<in> A \<Longrightarrow> P st \<Longrightarrow> reading st \<Longrightarrow> body start it st = Inr st' \<Longrightarrow> P st'"
    and "\<And>it st st'. it \<in> A \<Longrightarrow> P st \<Longrightarrow> reading st \<Longrightarrow> body start it st = Inl st' \<Longrightarrow> Q st'"
  shows "(fl = Raised \<and> Q st') \<or> (fl = Finished \<and> P st' \<and> \<not> reading st')
       \<or> (fl = Starved \<and> P st' \<and> reading st')"
  using assms(1,2,3)
proof (induction its arbitrary: st)
  case Nil
  then show ?case by (auto split: if_splits)
next
  case (Cons it rest)
  show ?case
  proof (cases "reading st")
    case False
    with Cons.prems show ?thesis by auto
  next
    case True
    show ?thesis
    proof (cases "body start it st")
      case (Inl a)
      with True Cons.prems have "st' = a" "fl = Raised" by simp_all
      moreover from Cons.prems(3) have "it \<in> A" by simp
      ultimately show ?thesis using Inl assms(5)[OF _ Cons.prems(2) True] by simp
    next
      case (Inr b)
      with True Cons.prems have "while_reading start rest b = (fl, st')" by simp
      moreover from Cons.prems(3) have a: "it \<in> A" "set rest \<subseteq> A" by simp_all
      have "P b" using assms(4)[OF a(1) Cons.prems(2) True Inr] .
      ultimately show ?thesis using a(2) by (rule Cons.IH)
    qed
  qed
qed

subsection \<open>What a pass appends to the calls\<close>

lemma body_Inr_events:
  assumes "body start it st = Inr st'"
  shows "events st' = events st @ pass_events it \<and> rd it \<noteq> None
       \<and> (reading st' \<longrightarrow> \<not> str_in sentinel (chunk it))"
proof (cases "rd it")
  case None
  with assms show ?thesis by (simp add: body_def)
next
  case (Some c)
  with assms show ?thesis
    by (cases "c = []"; cases "wr_ok it"; cases "str_in sentinel c";
        cases "total_seconds_gt (now_ts it - start) timeout_s")
       (auto simp: body_def emit_def Let_def pass_events_def chunk_def)
qed

lemma body_Inl_events:
  "body start it st = Inl st' \<Longrightarrow>
   events st' = events st @ [Read None]
   \<or> (\<exists>c. events st' = events st @ [Read (Some c), StdoutWrite c False])"
  by (auto simp: body_def emit_def Let_def split: option.splits if_splits)

lemma body_appends:
  assumes "body start it st = Inl st' \<or> body start it st = Inr st'"
  shows "\<exists>more. events st' = events st @ more"
  using assms body_Inr_events[of start it st st'] body_Inl_events[of start it st st'] by auto

lemma split_at_first:
  assumes "xs @ ys = pre @ x # post" "x \<notin> set xs"
  shows "\<exists>zs. pre = xs @ zs \<and> ys = zs @ x # post"
  using assms
proof (induction xs arbitrary: pre)
  case Nil
  then show ?case by simp
next
  case (Cons a xs)
  then obtain pre' where "pre = a # pre'" by (cases pre) auto
  with Cons show ?case by auto
qed

subsection \<open>The port\<close>

lemma body_keeps_port:
  "body start it st = Inl st' \<or> body start it st = Inr st' \<Longrightarrow>
   s st' = s st \<and> filter is_close (events st') = filter is_close (events st)"
  by (auto simp: body_def emit_def Let_def split: option.splits if_splits)

lemma while_reading_keeps_port:
  "while_reading start its st = (fl, st') \<Longrightarrow>
   s st' = s st \<and> filter is_close (events st') = filter is_close (events st)"
proof (induction its arbitrary: st)
  case Nil
  then show ?case by (auto split: if_splits)
next
  case (Cons it rest)
  show ?case
  proof (cases "reading st")
    case False
    with Cons.prems show ?thesis by simp
  next
    case True
    show ?thesis
    proof (cases "body start it st")
      case (Inl a)
      with True Cons.prems have "st' = a" by simp
      with Inl body_keeps_port[of start it st st'] show ?thesis by simp
    next
      case (Inr b)
      with True Cons.prems have "while_reading start rest b = (fl, st')" by simp
      from Cons.IH[OF this] Inr body_keeps_port[of start it st b] show ?thesis by simp
    qed
  qed
qed

lemma try_block_port:
  assumes "try_block e \<lparr>reading = True, timeout = False, s = False, d = None, stdout = [], events = []\<rparr> = (fl, st')"
  shows "s st' = open_ok e \<and> filter is_close (events st') = []"
proof (cases "open_ok e \<and> flush_ok e \<and> wake_ok e")
  case True
  with assms have "while_reading (start_ts e) (iters e) (loop_entry e) = (fl, st')"
    by (simp add: try_block_ok)
  from while_reading_keeps_port[OF this] True show ?thesis
    by (simp add: loop_entry_def prelude_def)
next
  case False
  with assms show ?thesis
    by (auto simp: try_block_def emit_def Let_def split: if_splits)
qed

subsection \<open>Forwarding\<close>

lemma chunks_read_append [simp]: "chunks_read (xs @ ys) = chunks_read xs @ chunks_read ys"
  by (induction xs rule: chunks_read.induct) auto

lemma concat_nonempty: "concat (filter (\<lambda>c. c \<noteq> []) cs) = concat cs"
  by (induction cs) auto

lemma body_forwarded:
  assumes "wr_ok it" "reading st" "forwarded st"
    and "body start it st = Inl st' \<or> body start it st = Inr st'"
  shows "forwarded st'
    \<and> (\<exists>ks. chunks_read (events st') = chunks_read (events st) @ ks
            \<and> prefix (map Some ks) [rd it]
            \<and> (body start it st = Inr st' \<longrightarrow> ks \<noteq> []))"
  using assms
  by (auto simp: forwarded_def body_def emit_def Let_def suffix_def split: option.splits if_splits)

lemma while_reading_forwarded:
  assumes "\<forall>it \<in> set its. wr_ok it" "forwarded st"
    and "while_reading start its st = (fl, st')"
  shows "forwarded st'
    \<and> (\<exists>ks. chunks_read (events st') = chunks_read (events st) @ ks
            \<and> prefix (map Some ks) (map rd its))"
  using assms
proof (induction its arbitrary: st)
  case Nil
  then show ?case by (auto split: if_splits)
next
  case (Cons it rest)
  show ?case
  proof (cases "reading st")
    case False
    with Cons.prems show ?thesis by simp
  next
    case True
    from Cons.prems(1) have w: "wr_ok it" "\<forall>it \<in> set rest. wr_ok it" by simp_all
    show ?thesis
    proof (cases "body start it st")
      case (Inl a)
      with True Cons.prems have "st' = a" by simp
      with Inl body_forwarded[OF w(1) True Cons.prems(2), of start st']
      obtain ks where "forwarded st'" "chunks_read (events st') = chunks_read (events st) @ ks"
        "prefix (map Some ks) [rd it]" by auto
      moreover from this(3) have "prefix (map Some ks) (map rd (it # rest))"
        by (cases ks) auto
      ultimately show ?thesis by blast
    next
      case (Inr b)
      with True Cons.prems have l: "while_reading start rest b = (fl, st')" by simp
      from Inr body_forwarded[OF w(1) True Cons.prems(2), of start b]
      obtain ks where b: "forwarded b" "chunks_read (events b) = chunks_read (events st) @ ks"
        "prefix (map Some ks) [rd it]" "ks \<noteq> []" by auto
      from b(3,4) have k: "map Some ks = [rd it]" by (cases ks) auto
      from Cons.IH[OF w(2) b(1) l]
      obtain ks' where "forwarded st'" "chunks_read (events st') = chunks_read (events b) @ ks'"
        "prefix (map Some ks') (map rd rest)" by auto
      with b(2) k have "forwarded st'" "chunks_read (events st') = chunks_read (events st) @ (ks @ ks')"
        "prefix (map Some (ks @ ks')) (map rd (it # rest))" by auto
      then show ?thesis by blast
    qed
  qed
qed

lemma run_forwarded:
  assumes "\<forall>it \<in> set (iters e). wr_ok it"
  shows "forwarded (snd (run e))
     \<and> prefix (map Some (chunks_read (events (snd (run e))))) (map rd (iters e))"
proof -
  obtain fl st' where t: "try_block e \<lparr>reading = True, timeout = False, s = False, d = None, stdout = [], events = []\<rparr> = (fl, st')"
    by (cases "try_block e \<lparr>reading = True, timeout = False, s = False, d = None, stdout = [], events = []\<rparr>")
  have f: "forwarded st' \<and> prefix (map Some (chunks_read (events st'))) (map rd (iters e))"
  proof (cases "open_ok e \<and> flush_ok e \<and> wake_ok e")
    case True
    with t have "while_reading (start_ts e) (iters e) (loop_entry e) = (fl, st')"
      by (simp add: try_block_ok)
    moreover have "forwarded (loop_entry e)" "chunks_read (events (loop_entry e)) = []"
      by (simp_all add: forwarded_def loop_entry_def prelude_def)
    ultimately show ?thesis
      using while_reading_forwarded[OF assms, of "loop_entry e" "start_ts e" fl st'] by auto
  next
    case False
    with t show ?thesis
      by (auto simp: try_block_def emit_def Let_def forwarded_def split: if_splits)
  qed
  have "forwarded (emit (Close b) st')" "chunks_read (events (emit (Close b) st')) = chunks_read (events st')" for b
    using f by (auto simp: forwarded_def emit_def)
  with f t show ?thesis
    by (auto simp: run_def finally_block_def Let_def)
qed

subsection \<open>Detection\<close>

lemma body_detected:
  "detected st \<Longrightarrow> reading st \<Longrightarrow> body start it st = Inr st' \<Longrightarrow> detected st'"
  by (auto simp: detected_def stopped_by_sentinel_def body_def emit_def Let_def
      split: option.splits if_splits)

lemma body_detected_raise:
  "wr_ok it \<Longrightarrow> detected st \<Longrightarrow> reading st \<Longrightarrow> body start it st = Inl st' \<Longrightarrow> detected st'"
  by (auto simp: detected_def stopped_by_sentinel_def body_def emit_def Let_def
      split: option.splits if_splits)

lemma run_detected:
  assumes "\<forall>it \<in> set (iters e). wr_ok it"
  shows "detected (snd (run e))"
proof -
  obtain fl st' where t: "try_block e \<lparr>reading = True, timeout = False, s = False, d = None, stdout = [], events = []\<rparr> = (fl, st')"
    by (cases "try_block e \<lparr>reading = True, timeout = False, s = False, d = None, stdout = [], events = []\<rparr>")
  have f: "detected st'"
  proof (cases "open_ok e \<and> flush_ok e \<and> wake_ok e")
    case True
    with t have "while_reading (start_ts e) (iters e) (loop_entry e) = (fl, st')"
      by (simp add: try_block_ok)
    moreover have "detected (loop_entry e)"
      by (simp add: detected_def stopped_by_sentinel_def loop_entry_def prelude_def)
    ultimately show ?thesis
      using while_reading_rule[of "start_ts e" "iters e" "loop_entry e" fl st' detected
          "{it. wr_ok it}" detected] assms body_detected body_detected_raise
      by blast
  next
    case False
    with t show ?thesis
      by (auto simp: try_block_def emit_def Let_def detected_def stopped_by_sentinel_def
          split: if_splits)
  qed
  have "detected (emit (Close b) st')" for b
    using f by (auto simp: detected_def stopped_by_sentinel_def emit_def)
  with f t show ?thesis
    by (auto simp: run_def finally_block_def Let_def)
qed

subsection \<open>After the sentinel\<close>

lemma nsr_append [simp]: "nsr (xs @ ys) = (nsr xs \<and> nsr ys)"
  by (auto simp: nsr_def)

lemma body_sealing:
  assumes "sealing st" "reading st" "body start it st = Inr st'"
  shows "sealing st'"
proof -
  from assms(1,2) have n: "nsr (events st)" by (simp add: sealing_def)
  define c where "c = chunk it"
  from body_Inr_events[OF assms(3)] have
    c: "events st' = events st @ Read (Some c)
          # (if c = [] then [] else [StdoutWrite c True]) @ [Now (now_ts it)]"
       "reading st' \<longrightarrow> \<not> str_in sentinel c" by (simp_all add: pass_events_def c_def)
  show ?thesis
  proof (cases "str_in sentinel c")
    case True
    then have "c \<noteq> []" by (auto simp: sentinel_def)
    with c(1) have "events st' = events st @ Read (Some c) # [StdoutWrite c True, Now (now_ts it)]"
      by simp
    with n True have "sealed (events st')" unfolding sealed_def by blast
    with c(2) True show ?thesis by (simp add: sealing_def)
  next
    case False
    with n c(1) have "nsr (events st')" by (simp add: nsr_def)
    then show ?thesis by (simp add: sealing_def sealed_def)
  qed
qed

lemma body_sealed_raise:
  assumes "sealing st" "reading st" "body start it st = Inl st'"
  shows "sealed (events st')"
proof -
  from assms(1,2) have n: "nsr (events st)" by (simp add: sealing_def)
  from body_Inl_events[OF assms(3)] show ?thesis
  proof
    assume "events st' = events st @ [Read None]"
    with n have "nsr (events st')" by (simp add: nsr_def)
    then show ?thesis by (simp add: sealed_def)
  next
    assume "\<exists>c. events st' = events st @ [Read (Some c), StdoutWrite c False]"
    then obtain c where c: "events st' = events st @ Read (Some c) # [StdoutWrite c False]" by auto
    show ?thesis
    proof (cases "str_in sentinel c")
      case True
      with n c show ?thesis unfolding sealed_def by blast
    next
      case False
      with n c have "nsr (events st')" by (simp add: nsr_def)
      then show ?thesis by (simp add: sealed_def)
    qed
  qed
qed

lemma sealed_closed:
  assumes "sealed evs" "evs @ cl = pre @ Read (Some c) # post" "str_in sentinel c"
    and "\<forall>ev \<in> set cl. \<not> is_read ev"
  shows "post = StdoutWrite c False # cl \<or> (\<exists>t. post = StdoutWrite c True # Now t # cl)"
proof -
  have notin: "Read (Some c) \<notin> set cl" using assms(4) by auto
  from assms(1) show ?thesis unfolding sealed_def
  proof
    assume "nsr evs"
    with assms(3) have "Read (Some c) \<notin> set evs" by (auto simp: nsr_def)
    with notin have "Read (Some c) \<notin> set (evs @ cl)" by simp
    with assms(2) show ?thesis by simp
  next
    assume "\<exists>q c' tl. evs = q @ Read (Some c') # tl \<and> nsr q \<and> str_in sentinel c'
            \<and> (tl = [StdoutWrite c' False] \<or> (\<exists>t. tl = [StdoutWrite c' True, Now t]))"
    then obtain q c' tl where q: "evs = q @ Read (Some c') # tl" "nsr q" "str_in sentinel c'"
      "tl = [StdoutWrite c' False] \<or> (\<exists>t. tl = [StdoutWrite c' True, Now t])" by blast
    from q(2) assms(3) have a: "Read (Some c) \<notin> set q" by (auto simp: nsr_def)
    from assms(2) q(1) have b: "q @ (Read (Some c') # tl @ cl) = pre @ Read (Some c) # post"
      by simp
    from split_at_first[OF b a]
    obtain zs where zs: "pre = q @ zs" "Read (Some c') # tl @ cl = zs @ Read (Some c) # post"
      by blast
    show ?thesis
    proof (cases zs)
      case Nil
      with zs(2) q(4) show ?thesis by auto
    next
      case (Cons z zs')
      with zs(2) have "tl @ cl = zs' @ Read (Some c) # post" by simp
      then have "Read (Some c) \<in> set (tl @ cl)" by simp
      with q(4) notin show ?thesis by auto
    qed
  qed
qed

lemma try_block_sealed:
  assumes "try_block e \<lparr>reading = True, timeout = False, s = False, d = None, stdout = [], events = []\<rparr> = (fl, st')"
  shows "sealed (events st') \<and> (fl = Starved \<longrightarrow> nsr (events st'))"
proof (cases "open_ok e \<and> flush_ok e \<and> wake_ok e")
  case True
  with assms have "while_reading (start_ts e) (iters e) (loop_entry e) = (fl, st')"
    by (simp add: try_block_ok)
  moreover have "sealing (loop_entry e)"
    by (simp add: sealing_def sealed_def nsr_def loop_entry_def prelude_def)
  ultimately have "(fl = Raised \<and> sealed (events st')) \<or> (fl = Finished \<and> sealing st' \<and> \<not> reading st')
       \<or> (fl = Starved \<and> sealing st' \<and> reading st')"
    using while_reading_rule[of "start_ts e" "iters e" "loop_entry e" fl st' sealing
          UNIV "\<lambda>st. sealed (events st)"] body_sealing body_sealed_raise
    by blast
  then show ?thesis by (auto simp: sealing_def)
next
  case False
  with assms show ?thesis
    by (auto simp: try_block_def emit_def Let_def sealed_def nsr_def split: if_splits)
qed

subsection \<open>Before the loop, and the deadline\<close>

lemma try_block_prelude:
  assumes "try_block e \<lparr>reading = True, timeout = False, s = False, d = None, stdout = [], events = []\<rparr> = (fl, st')"
  shows "prefix (prelude e) (events st') \<or> (\<forall>ev \<in> set (events st'). \<not> is_read ev)"
proof (cases "open_ok e \<and> flush_ok e \<and> wake_ok e")
  case True
  with assms have l: "while_reading (start_ts e) (iters e) (loop_entry e) = (fl, st')"
    by (simp add: try_block_ok)
  have i: "prefix (prelude e) (events (loop_entry e))"
    by (simp add: loop_entry_def)
  have step: "prefix (prelude e) (events b)"
    if "prefix (prelude e) (events a)" "body (start_ts e) it a = Inl b \<or> body (start_ts e) it a = Inr b"
    for it a b
    using that body_appends[of "start_ts e" it a b] by (auto simp: prefix_def)
  have "(fl = Raised \<and> prefix (prelude e) (events st'))
      \<or> (fl = Finished \<and> prefix (prelude e) (events st') \<and> \<not> reading st')
      \<or> (fl = Starved \<and> prefix (prelude e) (events st') \<and> reading st')"
    by (rule while_reading_rule[where P = "\<lambda>st. prefix (prelude e) (events st)" and A = UNIV,
          OF l i subset_UNIV]) (blast intro: step)+
  then show ?thesis by auto
next
  case False
  with assms show ?thesis
    by (auto simp: try_block_def emit_def Let_def split: if_splits)
qed

lemma run_prelude:
  assumes "events (snd (run e)) = before @ Read r # after"
  shows "\<exists>mid. before = prelude e @ mid"
proof -
  obtain fl st' where t: "try_block e \<lparr>reading = True, timeout = False, s = False, d = None, stdout = [], events = []\<rparr> = (fl, st')"
    by (cases "try_block e \<lparr>reading = True, timeout = False, s = False, d = None, stdout = [], events = []\<rparr>")
  have ev: "events (snd (run e)) = events st' \<or> (\<exists>b. events (snd (run e)) = events st' @ [Close b])"
    using t by (auto simp: run_def finally_block_def emit_def Let_def)
  have "is_read (Read r)" by simp
  with assms have "\<exists>ev \<in> set (events (snd (run e))). is_read ev" by (metis in_set_conv_decomp)
  with ev have "\<exists>ev \<in> set (events st'). is_read ev" by auto
  with try_block_prelude[OF t] have "prefix (prelude e) (events st')" by blast
  with ev have "prefix (prelude e) (events (snd (run e)))" by (auto simp: prefix_def)
  then obtain more where m: "prelude e @ more = before @ Read r # after"
    using assms by (auto simp: prefix_def)
  have n: "Read r \<notin> set (prelude e)" by (simp add: prelude_def)
  from split_at_first[OF m n] show ?thesis by blast
qed

lemma body_late_seen:
  "it \<in> set (iters e) \<Longrightarrow> late_seen e st \<Longrightarrow> body (start_ts e) it st = Inr st' \<Longrightarrow> late_seen e st'"
  by (cases "rd it")
     (auto simp: late_seen_def body_def emit_def Let_def total_seconds_gt_def timeout_s_def
      split: if_splits)

lemma run_late_seen:
  assumes "fst (run e) = Exit 1"
  shows "\<exists>it \<in> set (iters e). now_ts it - start_ts e > 7 * 1000000"
proof -
  obtain fl st' where t: "try_block e \<lparr>reading = True, timeout = False, s = False, d = None, stdout = [], events = []\<rparr> = (fl, st')"
    by (cases "try_block e \<lparr>reading = True, timeout = False, s = False, d = None, stdout = [], events = []\<rparr>")
  from assms t have f: "fl = Finished" "timeout st'"
    by (auto simp: run_def finally_block_def emit_def Let_def split: if_splits intro: flow.exhaust)
  have ok: "open_ok e \<and> flush_ok e \<and> wake_ok e"
    using t f(1) by (auto simp: try_block_def Let_def split: if_splits)
  with t have l: "while_reading (start_ts e) (iters e) (loop_entry e) = (fl, st')"
    by (simp add: try_block_ok)
  have i: "late_seen e (loop_entry e)" by (simp add: late_seen_def loop_entry_def)
  have "(fl = Raised \<and> True) \<or> (fl = Finished \<and> late_seen e st' \<and> \<not> reading st')
      \<or> (fl = Starved \<and> late_seen e st' \<and> reading st')"
    by (rule while_reading_rule[where P = "late_seen e" and A = "set (iters e)" and Q = "\<lambda>st. True",
          OF l i subset_refl]) (simp_all add: body_late_seen)
  with f show ?thesis by (simp add: late_seen_def)
qed

subsection \<open>Two runs side by side\<close>

lemma same_vars_emit [simp]: "same_vars (emit x a) (emit y b) = same_vars a b"
  by (simp add: same_vars_def emit_def)

lemma body_same:
  assumes "rd a = rd b" "wr_ok a = wr_ok b" "now_ts a - t1 = now_ts b - t2" "same_vars st1 st2"
  shows "(\<exists>x y. body t1 a st1 = Inl x \<and> body t2 b st2 = Inl y \<and> same_vars x y)
       \<or> (\<exists>x y. body t1 a st1 = Inr x \<and> body t2 b st2 = Inr y \<and> same_vars x y)"
proof (cases "rd a")
  case None
  with assms show ?thesis by (simp add: body_def)
next
  case (Some c)
  with assms(1) have r: "rd a = Some c" "rd b = Some c" by simp_all
  from assms(2) have w: "wr_ok b = wr_ok a" by simp
  from assms(3) have n: "now_ts a - t1 = now_ts b - t2" .
  from assms(4) r w n show ?thesis
    by (cases "c = []"; cases "wr_ok a"; cases "str_in sentinel c";
        cases "total_seconds_gt (now_ts b - t2) timeout_s")
       (simp_all add: body_def Let_def same_vars_def emit_def)
qed

lemma while_reading_same:
  assumes "map (\<lambda>it. (rd it, wr_ok it, now_ts it - t1)) xs
         = map (\<lambda>it. (rd it, wr_ok it, now_ts it - t2)) ys"
    and "same_vars st1 st2"
  shows "fst (while_reading t1 xs st1) = fst (while_reading t2 ys st2)
       \<and> same_vars (snd (while_reading t1 xs st1)) (snd (while_reading t2 ys st2))"
  using assms
proof (induction xs arbitrary: ys st1 st2)
  case Nil
  then show ?case by (simp add: same_vars_def)
next
  case (Cons a xs)
  then obtain b ys' where ys: "ys = b # ys'" by (cases ys) auto
  with Cons.prems(1) have o: "rd a = rd b" "wr_ok a = wr_ok b" "now_ts a - t1 = now_ts b - t2"
    and r: "map (\<lambda>it. (rd it, wr_ok it, now_ts it - t1)) xs
          = map (\<lambda>it. (rd it, wr_ok it, now_ts it - t2)) ys'"
    by simp_all
  show ?case
  proof (cases "reading st1")
    case False
    with Cons.prems(2) ys show ?thesis by (simp add: same_vars_def)
  next
    case True
    with Cons.prems(2) have t2: "reading st2" by (simp add: same_vars_def)
    from body_same[OF o Cons.prems(2)] show ?thesis
    proof (elim disjE exE conjE)
      fix x y assume "body t1 a st1 = Inl x" "body t2 b st2 = Inl y" "same_vars x y"
      with True t2 ys show ?thesis by simp
    next
      fix x y assume b: "body t1 a st1 = Inr x" "body t2 b st2 = Inr y" "same_vars x y"
      from Cons.IH[OF r b(3)] b(1,2) True t2 ys show ?thesis by simp
    qed
  qed
qed

subsection \<open>The two copies\<close>

lemma tests_body_eq: "tests_body = body"
  by (intro ext) (simp add: tests_body_def body_def)

lemma tests_while_reading_eq: "tests_while_reading = while_reading"
proof (intro ext)
  fix start its st
  show "tests_while_reading start its st = while_reading start its st"
    by (induction its arbitrary: st) (simp_all add: tests_body_eq split: sum.splits)
qed

lemma tests_try_block_eq: "tests_try_block = try_block"
  unfolding tests_try_block_def try_block_def tests_while_reading_eq by (rule refl)

lemma tests_finally_block_eq: "tests_finally_block = finally_block"
  unfolding tests_finally_block_def finally_block_def by (rule refl)

section \<open>The claims\<close>

text \<open>
  In the statements below a run is given as \<open>iters e = pre @ it # post\<close>: the passes
  \<open>pre\<close> come first and are quiet, \<open>it\<close> is the pass the statement is about, and \<open>post\<close>
  is what the world would have answered afterwards. Seven seconds are \<open>7000000\<close>
  microseconds.
\<close>

text \<open>
  Claim C1. When no call raises, the passes before are quiet, and a pass reads a chunk that
  holds the sentinel while its clock reading is not more than seven seconds past the start
  instant, the script exits with status 0. Standard output is then every chunk up to and
  including that one, in order: the received bytes up to and including the first byte
  \<open>0x03\<close> of the stream, followed by the bytes that came after it in the same chunk.
  The script learns when a chunk was read only from the clock reading of the same pass
  (line 48); that reading is what places the chunk inside the seven seconds.
\<close>

theorem sentinel_in_time_exits_0:
  assumes "open_ok e" "flush_ok e" "wake_ok e" "close_ok e"
    and "iters e = pre @ it # post"
    and "\<forall>p \<in> set pre. quiet (start_ts e) p"
    and "rd it = Some c" "wr_ok it" "str_in sentinel c"
    and "\<not> total_seconds_gt (now_ts it - start_ts e) timeout_s"
  shows "fst (run e) = Exit 0
    \<and> stdout (snd (run e)) = concat (map chunk pre) @ c
    \<and> stdout (snd (run e)) =
        takeWhile (\<lambda>b. b \<noteq> CHR 0x03) (concat (map chunk (iters e)))
          @ CHR 0x03 # tl (dropWhile (\<lambda>b. b \<noteq> CHR 0x03) c)"
proof -
  have r: "fst (run e) = Exit 0" "stdout (snd (run e)) = concat (map chunk pre) @ c"
    using run_stop[of e pre it post c] assms by simp_all
  have "\<forall>b \<in> set (concat (map chunk pre)). b \<noteq> CHR 0x03"
    using no_sentinel_concat[OF assms(6)] by blast
  moreover have "CHR 0x03 \<in> set c" using assms(9) by (simp add: str_in_sentinel)
  ultimately have "concat (map chunk pre) @ c =
      takeWhile (\<lambda>b. b \<noteq> CHR 0x03) (concat (map chunk pre) @ c @ concat (map chunk post))
        @ CHR 0x03 # tl (dropWhile (\<lambda>b. b \<noteq> CHR 0x03) c)"
    by (rule upto_sentinel)
  then show ?thesis using r assms(5,7) by (simp add: chunk_def)
qed

text \<open>The scenario of the specification, \<open>init ok\<close> and the sentinel, cut in chunks.\<close>

theorem sentinel_in_time_exits_0_witness:
  "fst (run \<lparr>open_ok = True, flush_ok = True, wake_ok = True, start_ts = 0,
        iters = [\<lparr>rd = Some ''init'', wr_ok = True, now_ts = 100000\<rparr>,
                 \<lparr>rd = Some [], wr_ok = True, now_ts = 200000\<rparr>,
                 \<lparr>rd = Some ('' ok'' @ [CHR 0x03] @ ''>''), wr_ok = True, now_ts = 300000\<rparr>,
                 \<lparr>rd = Some ''late'', wr_ok = True, now_ts = 400000\<rparr>],
        close_ok = True\<rparr>) = Exit 0
   \<and> stdout (snd (run \<lparr>open_ok = True, flush_ok = True, wake_ok = True, start_ts = 0,
        iters = [\<lparr>rd = Some ''init'', wr_ok = True, now_ts = 100000\<rparr>,
                 \<lparr>rd = Some [], wr_ok = True, now_ts = 200000\<rparr>,
                 \<lparr>rd = Some ('' ok'' @ [CHR 0x03] @ ''>''), wr_ok = True, now_ts = 300000\<rparr>,
                 \<lparr>rd = Some ''late'', wr_ok = True, now_ts = 400000\<rparr>],
        close_ok = True\<rparr>)) = ''init ok'' @ [CHR 0x03] @ ''>''"
  using sentinel_in_time_exits_0
    [of "\<lparr>open_ok = True, flush_ok = True, wake_ok = True, start_ts = 0,
        iters = [\<lparr>rd = Some ''init'', wr_ok = True, now_ts = 100000\<rparr>,
                 \<lparr>rd = Some [], wr_ok = True, now_ts = 200000\<rparr>,
                 \<lparr>rd = Some ('' ok'' @ [CHR 0x03] @ ''>''), wr_ok = True, now_ts = 300000\<rparr>,
                 \<lparr>rd = Some ''late'', wr_ok = True, now_ts = 400000\<rparr>],
        close_ok = True\<rparr>"
        "[\<lparr>rd = Some ''init'', wr_ok = True, now_ts = 100000\<rparr>,
          \<lparr>rd = Some [], wr_ok = True, now_ts = 200000\<rparr>]"
        "\<lparr>rd = Some ('' ok'' @ [CHR 0x03] @ ''>''), wr_ok = True, now_ts = 300000\<rparr>"
        "[\<lparr>rd = Some ''late'', wr_ok = True, now_ts = 400000\<rparr>]"
        "'' ok'' @ [CHR 0x03] @ ''>''"]
  by (simp add: quiet_def chunk_def sentinel_def total_seconds_gt_def timeout_s_def)

text \<open>
  Claim C2. When no call raises, the passes before are quiet (so no chunk with the
  sentinel has been read), and a pass sees the clock more than seven seconds past the start
  instant, the script exits with status 1, whatever that pass has read. Standard output
  is every chunk read, so it is empty when every read returned zero bytes.
\<close>

theorem timeout_exits_1:
  assumes "open_ok e" "flush_ok e" "wake_ok e" "close_ok e"
    and "iters e = pre @ it # post"
    and "\<forall>p \<in> set pre. quiet (start_ts e) p"
    and "rd it = Some c" "wr_ok it"
    and "total_seconds_gt (now_ts it - start_ts e) timeout_s"
  shows "fst (run e) = Exit 1
    \<and> stdout (snd (run e)) = concat (map chunk pre) @ c
    \<and> ((\<forall>p \<in> set pre. chunk p = []) \<and> c = [] \<longrightarrow> stdout (snd (run e)) = [])"
  using run_stop[of e pre it post c] assms by simp

text \<open>A device that stays silent for eight seconds.\<close>

theorem timeout_exits_1_witness:
  "fst (run \<lparr>open_ok = True, flush_ok = True, wake_ok = True, start_ts = 1000000,
        iters = [\<lparr>rd = Some [], wr_ok = True, now_ts = 1100000\<rparr>,
                 \<lparr>rd = Some [], wr_ok = True, now_ts = 4500000\<rparr>,
                 \<lparr>rd = Some [], wr_ok = True, now_ts = 8000001\<rparr>],
        close_ok = True\<rparr>) = Exit 1
   \<and> stdout (snd (run \<lparr>open_ok = True, flush_ok = True, wake_ok = True, start_ts = 1000000,
        iters = [\<lparr>rd = Some [], wr_ok = True, now_ts = 1100000\<rparr>,
                 \<lparr>rd = Some [], wr_ok = True, now_ts = 4500000\<rparr>,
                 \<lparr>rd = Some [], wr_ok = True, now_ts = 8000001\<rparr>],
        close_ok = True\<rparr>)) = []"
  using timeout_exits_1
    [of "\<lparr>open_ok = True, flush_ok = True, wake_ok = True, start_ts = 1000000,
        iters = [\<lparr>rd = Some [], wr_ok = True, now_ts = 1100000\<rparr>,
                 \<lparr>rd = Some [], wr_ok = True, now_ts = 4500000\<rparr>,
                 \<lparr>rd = Some [], wr_ok = True, now_ts = 8000001\<rparr>],
        close_ok = True\<rparr>"
        "[\<lparr>rd = Some [], wr_ok = True, now_ts = 1100000\<rparr>,
          \<lparr>rd = Some [], wr_ok = True, now_ts = 4500000\<rparr>]"
        "\<lparr>rd = Some [], wr_ok = True, now_ts = 8000001\<rparr>"
        "[]" "[]"]
  by (simp add: quiet_def chunk_def sentinel_def total_seconds_gt_def timeout_s_def)

text \<open>
  Claim C3, as amended. A pass that reads a chunk with the sentinel is the last pass of
  the run. The clock is looked at in that pass too (lines 48 to 52 are not under an
  \<^verbatim>\<open>else\<close>): the script exits with status 0 when the clock reading of that pass is
  not more than seven seconds past the start instant, and with status 1 when it is.
\<close>

theorem sentinel_pass_outcome:
  assumes "open_ok e" "flush_ok e" "wake_ok e" "close_ok e"
    and "iters e = pre @ it # post"
    and "\<forall>p \<in> set pre. quiet (start_ts e) p"
    and "rd it = Some c" "wr_ok it" "str_in sentinel c"
  shows "fst (run e) = Exit (if total_seconds_gt (now_ts it - start_ts e) timeout_s then 1 else 0)
    \<and> \<not> reading (snd (run e))
    \<and> length (filter is_read (events (snd (run e)))) = Suc (length pre)"
proof -
  have "length (filter is_read (concat (map pass_events ps))) = length ps" for ps
    by (induction ps) (simp_all add: pass_events_def)
  then show ?thesis
    using run_stop[of e pre it post c] assms by (simp add: prelude_def pass_events_def)
qed

text \<open>Exactly seven seconds is still in time.\<close>

theorem sentinel_pass_outcome_witness:
  "fst (run \<lparr>open_ok = True, flush_ok = True, wake_ok = True, start_ts = 0,
        iters = [\<lparr>rd = Some ''ab'', wr_ok = True, now_ts = 6900000\<rparr>,
                 \<lparr>rd = Some [CHR 0x03], wr_ok = True, now_ts = 7000000\<rparr>],
        close_ok = True\<rparr>) = Exit 0"
  using sentinel_pass_outcome
    [of "\<lparr>open_ok = True, flush_ok = True, wake_ok = True, start_ts = 0,
        iters = [\<lparr>rd = Some ''ab'', wr_ok = True, now_ts = 6900000\<rparr>,
                 \<lparr>rd = Some [CHR 0x03], wr_ok = True, now_ts = 7000000\<rparr>],
        close_ok = True\<rparr>"
        "[\<lparr>rd = Some ''ab'', wr_ok = True, now_ts = 6900000\<rparr>]"
        "\<lparr>rd = Some [CHR 0x03], wr_ok = True, now_ts = 7000000\<rparr>"
        "[]" "[CHR 0x03]"]
  by (simp add: quiet_def chunk_def sentinel_def total_seconds_gt_def timeout_s_def)

text \<open>
  The claim as first stated, success whatever time has elapsed, fails: the only chunk of
  this run is the sentinel, read with the clock eight seconds past the start instant, and
  the exit status is 1.
\<close>

theorem sentinel_after_deadline_exits_1:
  "str_in sentinel [CHR 0x03]
   \<and> fst (run \<lparr>open_ok = True, flush_ok = True, wake_ok = True, start_ts = 0,
        iters = [\<lparr>rd = Some [CHR 0x03], wr_ok = True, now_ts = 8000000\<rparr>],
        close_ok = True\<rparr>) = Exit 1"
  by (simp add: run_def try_block_def finally_block_def body_def emit_def sentinel_def
      total_seconds_gt_def timeout_s_def)

text \<open>
  Claim C4. A run that opened the port and has ended, by the sentinel, by the clock or by
  a raise in any call after the opening, calls \<^verbatim>\<open>s.close()\<close> exactly once, as its last
  call. A run whose opening raised never calls it, and ends with the exception uncaught.
\<close>

theorem port_closed_once:
  "(open_ok e \<and> fst (run e) \<noteq> Unfinished \<longrightarrow>
      (\<exists>evs b. events (snd (run e)) = evs @ [Close b] \<and> filter is_close evs = []))
   \<and> (\<not> open_ok e \<longrightarrow> filter is_close (events (snd (run e))) = [] \<and> fst (run e) = Uncaught)"
proof -
  obtain fl st' where t: "try_block e \<lparr>reading = True, timeout = False, s = False, d = None, stdout = [], events = []\<rparr> = (fl, st')"
    by (cases "try_block e \<lparr>reading = True, timeout = False, s = False, d = None, stdout = [], events = []\<rparr>")
  note p = try_block_port[OF t]
  have "fl = Raised" if "\<not> open_ok e"
    using that t by (simp add: try_block_def Let_def)
  then show ?thesis
    using t p by (auto simp: run_def finally_block_def emit_def Let_def)
qed

text \<open>A run whose second read raises, and a run whose opening raises.\<close>

theorem port_closed_once_witness:
  "(\<exists>evs b. events (snd (run \<lparr>open_ok = True, flush_ok = True, wake_ok = True, start_ts = 0,
        iters = [\<lparr>rd = Some ''a'', wr_ok = True, now_ts = 100000\<rparr>,
                 \<lparr>rd = None, wr_ok = True, now_ts = 200000\<rparr>],
        close_ok = True\<rparr>)) = evs @ [Close b] \<and> filter is_close evs = [])
   \<and> filter is_close (events (snd (run \<lparr>open_ok = False, flush_ok = True, wake_ok = True,
        start_ts = 0, iters = [], close_ok = True\<rparr>))) = []"
  using port_closed_once
    [of "\<lparr>open_ok = True, flush_ok = True, wake_ok = True, start_ts = 0,
        iters = [\<lparr>rd = Some ''a'', wr_ok = True, now_ts = 100000\<rparr>,
                 \<lparr>rd = None, wr_ok = True, now_ts = 200000\<rparr>],
        close_ok = True\<rparr>"]
    port_closed_once
    [of "\<lparr>open_ok = False, flush_ok = True, wake_ok = True,
        start_ts = 0, iters = [], close_ok = True\<rparr>"]
  by (simp add: run_def try_block_def finally_block_def body_def emit_def sentinel_def
      total_seconds_gt_def timeout_s_def)

text \<open>
  Claim C5. When no write to standard output raises, standard output is the
  concatenation of the non-empty chunks the reads of the run returned, in the order of
  the reads; these chunks are the first answers of the world's script, one per pass and in
  the same order; and a chunk that holds the sentinel has been forwarded whole, bytes
  after the sentinel included, as the last bytes of standard output. (A write that raises
  leaves open how many of its bytes went out, so the statement is about runs whose writes
  complete; every other call may raise.)
\<close>

theorem stdout_is_chunks_in_order:
  assumes "\<forall>it \<in> set (iters e). wr_ok it"
  shows "stdout (snd (run e)) = concat (filter (\<lambda>c. c \<noteq> []) (chunks_read (events (snd (run e)))))
    \<and> prefix (map Some (chunks_read (events (snd (run e))))) (map rd (iters e))
    \<and> (\<forall>c \<in> set (chunks_read (events (snd (run e)))).
          str_in sentinel c \<longrightarrow> suffix c (stdout (snd (run e))))"
  using run_forwarded[OF assms] by (auto simp: forwarded_def concat_nonempty)

text \<open>Three chunks, one of them empty, the last with a byte after the sentinel.\<close>

theorem stdout_is_chunks_in_order_witness:
  "stdout (snd (run \<lparr>open_ok = True, flush_ok = True, wake_ok = True, start_ts = 0,
        iters = [\<lparr>rd = Some ''ab'', wr_ok = True, now_ts = 100000\<rparr>,
                 \<lparr>rd = Some [], wr_ok = True, now_ts = 200000\<rparr>,
                 \<lparr>rd = Some (''c'' @ [CHR 0x03] @ ''d''), wr_ok = True, now_ts = 300000\<rparr>,
                 \<lparr>rd = Some ''e'', wr_ok = True, now_ts = 400000\<rparr>],
        close_ok = True\<rparr>))
     = concat (filter (\<lambda>c. c \<noteq> []) [''ab'', [], ''c'' @ [CHR 0x03] @ ''d''])"
  using stdout_is_chunks_in_order
    [of "\<lparr>open_ok = True, flush_ok = True, wake_ok = True, start_ts = 0,
        iters = [\<lparr>rd = Some ''ab'', wr_ok = True, now_ts = 100000\<rparr>,
                 \<lparr>rd = Some [], wr_ok = True, now_ts = 200000\<rparr>,
                 \<lparr>rd = Some (''c'' @ [CHR 0x03] @ ''d''), wr_ok = True, now_ts = 300000\<rparr>,
                 \<lparr>rd = Some ''e'', wr_ok = True, now_ts = 400000\<rparr>],
        close_ok = True\<rparr>"]
  by (simp add: run_def try_block_def finally_block_def body_def emit_def sentinel_def
      total_seconds_gt_def timeout_s_def)

text \<open>
  Claim C6, as amended. In every run, whatever comes before a read starts with: the
  port opened, the input flushed, a pause of half a second, the wake byte written, the
  clock read into \<^verbatim>\<open>start_reading_ts\<close>. A run exits with status 1 only if some pass saw
  the clock more than seven seconds past that instant, the one taken after the wake byte.
  A response whose first byte is the sentinel, read after any number of empty reads in
  time, is forwarded whole and ends the run: with status 0 when the clock reading of that
  pass is not more than seven seconds past the start instant, with status 1 when it is.
\<close>

theorem capture_starts_after_wake:
  "(\<forall>xs r ys. events (snd (run e)) = xs @ Read r # ys \<longrightarrow>
       (\<exists>mid. xs = [Open ''/dev/tty.usbmodem1421'' 115200 100000 True, FlushInput True,
                        Sleep 500000, PortWrite '' '' True, Now (start_ts e)] @ mid))
   \<and> (fst (run e) = Exit 1 \<longrightarrow> (\<exists>it \<in> set (iters e). now_ts it - start_ts e > 7 * 1000000))
   \<and> (open_ok e \<and> flush_ok e \<and> wake_ok e \<and> close_ok e \<and> iters e = pre @ it # post
        \<and> (\<forall>p \<in> set pre. quiet (start_ts e) p \<and> chunk p = [])
        \<and> rd it = Some (CHR 0x03 # cs) \<and> wr_ok it \<longrightarrow>
      fst (run e) = Exit (if now_ts it - start_ts e > 7 * 1000000 then 1 else 0)
      \<and> stdout (snd (run e)) = CHR 0x03 # cs)"
proof (intro conjI impI allI)
  fix xs r ys
  assume "events (snd (run e)) = xs @ Read r # ys"
  from run_prelude[OF this]
  show "\<exists>mid. xs = [Open ''/dev/tty.usbmodem1421'' 115200 100000 True, FlushInput True,
                        Sleep 500000, PortWrite '' '' True, Now (start_ts e)] @ mid"
    by (simp add: prelude_def)
next
  assume "fst (run e) = Exit 1"
  then show "\<exists>it \<in> set (iters e). now_ts it - start_ts e > 7 * 1000000"
    by (rule run_late_seen)
next
  assume a: "open_ok e \<and> flush_ok e \<and> wake_ok e \<and> close_ok e \<and> iters e = pre @ it # post
        \<and> (\<forall>p \<in> set pre. quiet (start_ts e) p \<and> chunk p = [])
        \<and> rd it = Some (CHR 0x03 # cs) \<and> wr_ok it"
  then have "str_in sentinel (CHR 0x03 # cs)" by (simp add: sentinel_def)
  with a run_stop[of e pre it post "CHR 0x03 # cs"]
  have "run e =
     (Exit (if total_seconds_gt (now_ts it - start_ts e) timeout_s then 1 else 0),
      \<lparr>reading = False, timeout = total_seconds_gt (now_ts it - start_ts e) timeout_s,
       s = True, d = Some (CHR 0x03 # cs), stdout = concat (map chunk pre) @ CHR 0x03 # cs,
       events = prelude e @ concat (map pass_events pre) @ pass_events it @ [Close True]\<rparr>)"
    by simp
  moreover from a have "concat (map chunk pre) = []" by simp
  ultimately show "fst (run e) = Exit (if now_ts it - start_ts e > 7 * 1000000 then 1 else 0)"
    and "stdout (snd (run e)) = CHR 0x03 # cs"
    by (simp_all add: total_seconds_gt_def timeout_s_def)
qed

text \<open>One empty read, then a response that starts with the sentinel.\<close>

theorem capture_starts_after_wake_witness:
  "fst (run \<lparr>open_ok = True, flush_ok = True, wake_ok = True, start_ts = 2000000,
        iters = [\<lparr>rd = Some [], wr_ok = True, now_ts = 2100000\<rparr>,
                 \<lparr>rd = Some (CHR 0x03 # ''ok''), wr_ok = True, now_ts = 2200000\<rparr>],
        close_ok = True\<rparr>) = Exit 0
   \<and> stdout (snd (run \<lparr>open_ok = True, flush_ok = True, wake_ok = True, start_ts = 2000000,
        iters = [\<lparr>rd = Some [], wr_ok = True, now_ts = 2100000\<rparr>,
                 \<lparr>rd = Some (CHR 0x03 # ''ok''), wr_ok = True, now_ts = 2200000\<rparr>],
        close_ok = True\<rparr>)) = CHR 0x03 # ''ok''"
  using capture_starts_after_wake
    [of "\<lparr>open_ok = True, flush_ok = True, wake_ok = True, start_ts = 2000000,
        iters = [\<lparr>rd = Some [], wr_ok = True, now_ts = 2100000\<rparr>,
                 \<lparr>rd = Some (CHR 0x03 # ''ok''), wr_ok = True, now_ts = 2200000\<rparr>],
        close_ok = True\<rparr>"
        "[\<lparr>rd = Some [], wr_ok = True, now_ts = 2100000\<rparr>]"
        "\<lparr>rd = Some (CHR 0x03 # ''ok''), wr_ok = True, now_ts = 2200000\<rparr>"
        "[]" "''ok''"]
  by (simp add: quiet_def chunk_def sentinel_def total_seconds_gt_def timeout_s_def)

text \<open>
  The claim as first stated, that such a run exits with status 0, fails: the first read
  returns a response that starts with the sentinel, the clock reading of that pass is
  seven and a half seconds past the start instant, and the exit status is 1.
\<close>

theorem first_byte_sentinel_late_exits_1:
  "rd \<lparr>rd = Some (CHR 0x03 # ''ok''), wr_ok = True, now_ts = 8500000\<rparr> = Some (CHR 0x03 # ''ok'')
   \<and> fst (run \<lparr>open_ok = True, flush_ok = True, wake_ok = True, start_ts = 1000000,
        iters = [\<lparr>rd = Some (CHR 0x03 # ''ok''), wr_ok = True, now_ts = 8500000\<rparr>],
        close_ok = True\<rparr>) = Exit 1"
  by (simp add: run_def try_block_def finally_block_def body_def emit_def sentinel_def
      total_seconds_gt_def timeout_s_def)

text \<open>
  Claim C7. Two runs in which the same calls raise and whose passes observe the same
  chunks and the same elapsed times (the instants themselves may differ) end the same
  way and leave the same bytes on standard output.
\<close>

theorem same_observations_same_result:
  assumes "open_ok e1 = open_ok e2" "flush_ok e1 = flush_ok e2" "wake_ok e1 = wake_ok e2"
    and "close_ok e1 = close_ok e2"
    and "map (\<lambda>it. (rd it, wr_ok it, now_ts it - start_ts e1)) (iters e1)
       = map (\<lambda>it. (rd it, wr_ok it, now_ts it - start_ts e2)) (iters e2)"
  shows "fst (run e1) = fst (run e2) \<and> stdout (snd (run e1)) = stdout (snd (run e2))"
proof -
  let ?st0 = "\<lparr>reading = True, timeout = False, s = False, d = None, stdout = [], events = []\<rparr>"
  have t: "fst (try_block e1 ?st0) = fst (try_block e2 ?st0)
         \<and> same_vars (snd (try_block e1 ?st0)) (snd (try_block e2 ?st0))"
  proof (cases "open_ok e1 \<and> flush_ok e1 \<and> wake_ok e1")
    case True
    have "same_vars (loop_entry e1) (loop_entry e2)"
      by (simp add: same_vars_def loop_entry_def)
    from while_reading_same[OF assms(5) this] True assms(1-3) show ?thesis
      by (simp add: try_block_ok)
  next
    case False
    with assms(1-3) show ?thesis
      by (auto simp: try_block_def Let_def same_vars_def emit_def)
  qed
  obtain f1 a1 where 1: "try_block e1 ?st0 = (f1, a1)" by (cases "try_block e1 ?st0")
  obtain f2 a2 where 2: "try_block e2 ?st0 = (f2, a2)" by (cases "try_block e2 ?st0")
  from t 1 2 have "f1 = f2" "same_vars a1 a2" by simp_all
  with 1 2 assms(4) show ?thesis
    by (auto simp: run_def finally_block_def Let_def same_vars_def emit_def)
qed

text \<open>The same device, run five seconds later.\<close>

theorem same_observations_same_result_witness:
  "fst (run \<lparr>open_ok = True, flush_ok = True, wake_ok = True, start_ts = 0,
        iters = [\<lparr>rd = Some ''ab'', wr_ok = True, now_ts = 100000\<rparr>,
                 \<lparr>rd = Some [CHR 0x03], wr_ok = True, now_ts = 200000\<rparr>],
        close_ok = True\<rparr>)
   = fst (run \<lparr>open_ok = True, flush_ok = True, wake_ok = True, start_ts = 5000000,
        iters = [\<lparr>rd = Some ''ab'', wr_ok = True, now_ts = 5100000\<rparr>,
                 \<lparr>rd = Some [CHR 0x03], wr_ok = True, now_ts = 5200000\<rparr>],
        close_ok = True\<rparr>)
   \<and> stdout (snd (run \<lparr>open_ok = True, flush_ok = True, wake_ok = True, start_ts = 0,
        iters = [\<lparr>rd = Some ''ab'', wr_ok = True, now_ts = 100000\<rparr>,
                 \<lparr>rd = Some [CHR 0x03], wr_ok = True, now_ts = 200000\<rparr>],
        close_ok = True\<rparr>))
   = stdout (snd (run \<lparr>open_ok = True, flush_ok = True, wake_ok = True, start_ts = 5000000,
        iters = [\<lparr>rd = Some ''ab'', wr_ok = True, now_ts = 5100000\<rparr>,
                 \<lparr>rd = Some [CHR 0x03], wr_ok = True, now_ts = 5200000\<rparr>],
        close_ok = True\<rparr>))"
  using same_observations_same_result
    [of "\<lparr>open_ok = True, flush_ok = True, wake_ok = True, start_ts = 0,
        iters = [\<lparr>rd = Some ''ab'', wr_ok = True, now_ts = 100000\<rparr>,
                 \<lparr>rd = Some [CHR 0x03], wr_ok = True, now_ts = 200000\<rparr>],
        close_ok = True\<rparr>"
        "\<lparr>open_ok = True, flush_ok = True, wake_ok = True, start_ts = 5000000,
        iters = [\<lparr>rd = Some ''ab'', wr_ok = True, now_ts = 5100000\<rparr>,
                 \<lparr>rd = Some [CHR 0x03], wr_ok = True, now_ts = 5200000\<rparr>],
        close_ok = True\<rparr>"]
  by simp

text \<open>
  Claim C8. The two copies of the script behave alike on every input: same end, same
  standard output, same calls.
\<close>

theorem copies_agree:
  "tests_run e = run e"
  unfolding tests_run_def run_def tests_try_block_eq tests_finally_block_eq by (rule refl)

text \<open>
  Claim C9. The sentinel is one byte, so the test of line 45 finds it in a chunk exactly
  when the byte \<open>0x03\<close> is in the chunk. When no write to standard output raises, the
  loop has ended through line 46 exactly when the bytes read so far contain \<open>0x03\<close>. When
  no call raises and no pass sees the clock past the limit, the run exits with status 0 if
  the delivered bytes contain \<open>0x03\<close> and is still reading at the end of the script if
  they do not, however the bytes are cut into chunks: two such runs that deliver the same
  bytes in different chunks end the same way.
\<close>

theorem sentinel_detection_any_chunking:
  "((\<forall>it \<in> set (iters e). wr_ok it) \<longrightarrow>
      (stopped_by_sentinel (snd (run e))
         \<longleftrightarrow> CHR 0x03 \<in> set (concat (chunks_read (events (snd (run e)))))))
   \<and> (no_failure e
        \<and> (\<forall>it \<in> set (iters e). \<not> total_seconds_gt (now_ts it - start_ts e) timeout_s) \<longrightarrow>
      fst (run e) = (if CHR 0x03 \<in> set (concat (map chunk (iters e))) then Exit 0 else Unfinished))
   \<and> (no_failure e \<and> no_failure e'
        \<and> (\<forall>it \<in> set (iters e). \<not> total_seconds_gt (now_ts it - start_ts e) timeout_s)
        \<and> (\<forall>it \<in> set (iters e'). \<not> total_seconds_gt (now_ts it - start_ts e') timeout_s)
        \<and> concat (map chunk (iters e)) = concat (map chunk (iters e')) \<longrightarrow>
      fst (run e) = fst (run e'))"
proof (intro conjI impI)
  assume "\<forall>it \<in> set (iters e). wr_ok it"
  from run_detected[OF this]
  show "stopped_by_sentinel (snd (run e))
         \<longleftrightarrow> CHR 0x03 \<in> set (concat (chunks_read (events (snd (run e)))))"
    by (auto simp: detected_def str_in_sentinel)
next
  assume "no_failure e
        \<and> (\<forall>it \<in> set (iters e). \<not> total_seconds_gt (now_ts it - start_ts e) timeout_s)"
  then show "fst (run e) = (if CHR 0x03 \<in> set (concat (map chunk (iters e))) then Exit 0 else Unfinished)"
    by (simp add: run_in_time)
next
  assume "no_failure e \<and> no_failure e'
        \<and> (\<forall>it \<in> set (iters e). \<not> total_seconds_gt (now_ts it - start_ts e) timeout_s)
        \<and> (\<forall>it \<in> set (iters e'). \<not> total_seconds_gt (now_ts it - start_ts e') timeout_s)
        \<and> concat (map chunk (iters e)) = concat (map chunk (iters e'))"
  then show "fst (run e) = fst (run e')"
    using run_in_time[of e] run_in_time[of e'] by simp
qed

text \<open>The bytes \<open>ok\<close> and the sentinel, cut in two ways.\<close>

theorem sentinel_detection_any_chunking_witness:
  "stopped_by_sentinel (snd (run \<lparr>open_ok = True, flush_ok = True, wake_ok = True, start_ts = 0,
        iters = [\<lparr>rd = Some ''ok'', wr_ok = True, now_ts = 100000\<rparr>,
                 \<lparr>rd = Some [CHR 0x03], wr_ok = True, now_ts = 200000\<rparr>],
        close_ok = True\<rparr>))
   \<and> fst (run \<lparr>open_ok = True, flush_ok = True, wake_ok = True, start_ts = 0,
        iters = [\<lparr>rd = Some ''ok'', wr_ok = True, now_ts = 100000\<rparr>,
                 \<lparr>rd = Some [CHR 0x03], wr_ok = True, now_ts = 200000\<rparr>],
        close_ok = True\<rparr>) = Exit 0
   \<and> fst (run \<lparr>open_ok = True, flush_ok = True, wake_ok = True, start_ts = 0,
        iters = [\<lparr>rd = Some ''ok'', wr_ok = True, now_ts = 100000\<rparr>,
                 \<lparr>rd = Some [CHR 0x03], wr_ok = True, now_ts = 200000\<rparr>],
        close_ok = True\<rparr>)
     = fst (run \<lparr>open_ok = True, flush_ok = True, wake_ok = True, start_ts = 0,
        iters = [\<lparr>rd = Some ''o'', wr_ok = True, now_ts = 100000\<rparr>,
                 \<lparr>rd = Some (''k'' @ [CHR 0x03]), wr_ok = True, now_ts = 200000\<rparr>],
        close_ok = True\<rparr>)"
  using sentinel_detection_any_chunking
    [of "\<lparr>open_ok = True, flush_ok = True, wake_ok = True, start_ts = 0,
        iters = [\<lparr>rd = Some ''ok'', wr_ok = True, now_ts = 100000\<rparr>,
                 \<lparr>rd = Some [CHR 0x03], wr_ok = True, now_ts = 200000\<rparr>],
        close_ok = True\<rparr>"
        "\<lparr>open_ok = True, flush_ok = True, wake_ok = True, start_ts = 0,
        iters = [\<lparr>rd = Some ''o'', wr_ok = True, now_ts = 100000\<rparr>,
                 \<lparr>rd = Some (''k'' @ [CHR 0x03]), wr_ok = True, now_ts = 200000\<rparr>],
        close_ok = True\<rparr>"]
  by (simp add: run_def try_block_def finally_block_def body_def emit_def sentinel_def
      total_seconds_gt_def timeout_s_def no_failure_def chunk_def stopped_by_sentinel_def)

text \<open>
  Claim C10. In every run, after a read that returned a chunk with the sentinel come
  only the forwarding of that very chunk, one look at the clock when the forwarding went
  through, and the closing of the port: no further read, no further write to standard
  output.
\<close>

theorem nothing_after_sentinel_chunk:
  assumes "events (snd (run e)) = pre @ Read (Some c) # post" "str_in sentinel c"
  shows "\<exists>b. post = [StdoutWrite c False, Close b] \<or> (\<exists>t. post = [StdoutWrite c True, Now t, Close b])"
proof -
  obtain fl st' where t: "try_block e \<lparr>reading = True, timeout = False, s = False, d = None, stdout = [], events = []\<rparr> = (fl, st')"
    by (cases "try_block e \<lparr>reading = True, timeout = False, s = False, d = None, stdout = [], events = []\<rparr>")
  note sl = try_block_sealed[OF t] and p = try_block_port[OF t]
  have nn: "nsr evs \<Longrightarrow> evs \<noteq> pre @ Read (Some c) # post" for evs
    using assms(2) by (auto simp: nsr_def)
  show ?thesis
  proof (cases "fl = Starved \<or> \<not> open_ok e")
    case True
    then have "events (snd (run e)) = events st'"
      using t p by (auto simp: run_def finally_block_def Let_def)
    moreover have "nsr (events st')"
    proof (cases "open_ok e")
      case True
      with \<open>fl = Starved \<or> \<not> open_ok e\<close> sl show ?thesis by simp
    next
      case False
      with t show ?thesis by (auto simp: try_block_def emit_def Let_def nsr_def)
    qed
    ultimately show ?thesis using nn[of "events st'"] assms(1) by simp
  next
    case False
    then have "events (snd (run e)) = events st' @ [Close (close_ok e)]"
      using t p by (auto simp: run_def finally_block_def emit_def Let_def)
    with assms(1) have "events st' @ [Close (close_ok e)] = pre @ Read (Some c) # post" by simp
    from sealed_closed[OF _ this assms(2)] sl show ?thesis by auto
  qed
qed

text \<open>The world had more to say after the sentinel; the script did not ask.\<close>

theorem nothing_after_sentinel_chunk_witness:
  "events (snd (run \<lparr>open_ok = True, flush_ok = True, wake_ok = True, start_ts = 0,
        iters = [\<lparr>rd = Some ''ab'', wr_ok = True, now_ts = 100000\<rparr>,
                 \<lparr>rd = Some (CHR 0x03 # ''x''), wr_ok = True, now_ts = 200000\<rparr>,
                 \<lparr>rd = Some ''more'', wr_ok = True, now_ts = 300000\<rparr>],
        close_ok = True\<rparr>))
     = [Open ''/dev/tty.usbmodem1421'' 115200 100000 True, FlushInput True, Sleep 500000,
        PortWrite '' '' True, Now 0, Read (Some ''ab''), StdoutWrite ''ab'' True, Now 100000]
       @ Read (Some (CHR 0x03 # ''x''))
       # [StdoutWrite (CHR 0x03 # ''x'') True, Now 200000, Close True]
   \<and> str_in sentinel (CHR 0x03 # ''x'')
   \<and> (\<exists>b. [StdoutWrite (CHR 0x03 # ''x'') True, Now 200000, Close True]
              = [StdoutWrite (CHR 0x03 # ''x'') False, Close b]
          \<or> (\<exists>t. [StdoutWrite (CHR 0x03 # ''x'') True, Now 200000, Close True]
              = [StdoutWrite (CHR 0x03 # ''x'') True, Now t, Close b]))"
  using nothing_after_sentinel_chunk
    [of "\<lparr>open_ok = True, flush_ok = True, wake_ok = True, start_ts = 0,
        iters = [\<lparr>rd = Some ''ab'', wr_ok = True, now_ts = 100000\<rparr>,
                 \<lparr>rd = Some (CHR 0x03 # ''x''), wr_ok = True, now_ts = 200000\<rparr>,
                 \<lparr>rd = Some ''more'', wr_ok = True, now_ts = 300000\<rparr>],
        close_ok = True\<rparr>"
        "[Open ''/dev/tty.usbmodem1421'' 115200 100000 True, FlushInput True, Sleep 500000,
        PortWrite '' '' True, Now 0, Read (Some ''ab''), StdoutWrite ''ab'' True, Now 100000]"
        "CHR 0x03 # ''x''"
        "[StdoutWrite (CHR 0x03 # ''x'') True, Now 200000, Close True]"]
  by (simp add: run_def try_block_def finally_block_def body_def emit_def sentinel_def
      total_seconds_gt_def timeout_s_def)

end
